theory Spec2Isabelle
  imports Main "HOL-Library.Word"
begin

unbundle bit_operations_syntax

section \<open>Data model\<close>

text \<open>
  The program works on two kinds of data. A \<^verbatim>\<open>std::string\<close> is a sequence of bytes; it is
  modelled as \<^typ>\<open>string\<close>, whose characters are exactly the 256 byte values. A
  \<^verbatim>\<open>std::uint32_t\<close> code point is modelled as a natural number: the program never does
  arithmetic on code points (it only compares them with the case labels of a switch and
  copies them), so no wrap-around can occur, and a statement about every natural number
  covers every 32-bit value.
\<close>

type_synonym u32 = nat

definition byte_value :: "char \<Rightarrow> nat" where
  "byte_value b = of_char b"

definition byte :: "nat \<Rightarrow> char" where
  "byte n = char_of n"

definition newline :: char where
  "newline = CHR 0x0A"

text \<open>
  Every exception the program can meet derives from \<^verbatim>\<open>std::exception\<close>; the handler in
  \<^verbatim>\<open>process_file\<close> only reads \<^verbatim>\<open>what()\<close>.
\<close>

datatype exn =
    range_error string
  | runtime_error string
  | openmpt_exception string

fun what :: "exn \<Rightarrow> string" where
  "what (range_error m) = m"
| "what (runtime_error m) = m"
| "what (openmpt_exception m) = m"

text \<open>
  A call returns a value, throws, or runs into undefined behaviour. The only undefined
  behaviour modelled is the one \<^verbatim>\<open>get_grapheme_count\<close> can reach: its iterator stepping
  past the end of the string.
\<close>

datatype 'a result = Ok 'a | Raise exn | Overrun

text \<open>The two streams the program writes: standard output and standard error.\<close>

record streams =
  out :: string
  err :: string

section \<open>The codepoint codec\<close>

text \<open>
  \<^verbatim>\<open>utf8_to_codepoints\<close> and \<^verbatim>\<open>codepoints_to_utf8\<close> hand their argument to a
  \<^verbatim>\<open>std::wstring_convert\<close> over \<^verbatim>\<open>std::codecvt_utf8<char32_t>\<close> and copy the result. The
  converter belongs to the C++ standard library, not to the repository, so it is a
  parameter of the model: a pair of functions that either return or throw.
\<close>

record converter =
  from_bytes :: "string \<Rightarrow> exn + u32 list"
  to_bytes :: "u32 list \<Rightarrow> exn + string"

definition utf8_to_codepoints :: "converter \<Rightarrow> string \<Rightarrow> exn + u32 list" where
  "utf8_to_codepoints cv s = from_bytes cv s"

definition codepoints_to_utf8 :: "converter \<Rightarrow> u32 list \<Rightarrow> exn + string" where
  "codepoints_to_utf8 cv codepoints = to_bytes cv codepoints"

subsection \<open>The converter the specification describes\<close>

text \<open>
  Modelled from the spec: the standard library's UTF-8 converter is not part of the
  repository. Section 4.1 of the specification describes it: decoding reads the input
  strictly as UTF-8 and fails on malformed continuation bytes, overlong encodings,
  surrogate code points and out-of-range values; encoding fails on a scalar outside the
  Unicode range or on a surrogate. The definitions below are that strict codec.
\<close>

definition is_scalar :: "u32 \<Rightarrow> bool" where
  "is_scalar c \<longleftrightarrow> c \<le> 0x10FFFF \<and> \<not> (0xD800 \<le> c \<and> c \<le> 0xDFFF)"

definition is_cont :: "nat \<Rightarrow> bool" where
  "is_cont b \<longleftrightarrow> 0x80 \<le> b \<and> b \<le> 0xBF"

definition encode_scalar :: "u32 \<Rightarrow> string" where
  "encode_scalar c =
     (if c < 0x80 then [byte c]
      else if c < 0x800 then [byte (0xC0 + c div 0x40), byte (0x80 + c mod 0x40)]
      else if c < 0x10000 then
        [byte (0xE0 + c div 0x1000), byte (0x80 + c div 0x40 mod 0x40), byte (0x80 + c mod 0x40)]
      else
        [byte (0xF0 + c div 0x40000), byte (0x80 + c div 0x1000 mod 0x40),
         byte (0x80 + c div 0x40 mod 0x40), byte (0x80 + c mod 0x40)])"

fun utf8_encode :: "u32 list \<Rightarrow> string option" where
  "utf8_encode [] = Some []"
| "utf8_encode (c # cs) =
     (if is_scalar c
      then (case utf8_encode cs of None \<Rightarrow> None | Some bs \<Rightarrow> Some (encode_scalar c @ bs))
      else None)"

text \<open>
  Modelled from the spec: the strict decoder. A sequence of two, three or four bytes, given
  as numbers, decodes when the continuation bytes are \<open>10xxxxxx\<close> and the value needs
  that many bytes (no overlong form), is not a surrogate and does not exceed \<open>0x10FFFF\<close>.
\<close>

definition decode2 :: "nat \<Rightarrow> nat \<Rightarrow> u32 option" where
  "decode2 b0 b1 =
     (let c = (b0 - 0xC0) * 0x40 + (b1 - 0x80)
      in if is_cont b1 \<and> 0x80 \<le> c then Some c else None)"

definition decode3 :: "nat \<Rightarrow> nat \<Rightarrow> nat \<Rightarrow> u32 option" where
  "decode3 b0 b1 b2 =
     (let c = (b0 - 0xE0) * 0x1000 + (b1 - 0x80) * 0x40 + (b2 - 0x80)
      in if is_cont b1 \<and> is_cont b2 \<and> 0x800 \<le> c \<and> is_scalar c then Some c else None)"

definition decode4 :: "nat \<Rightarrow> nat \<Rightarrow> nat \<Rightarrow> nat \<Rightarrow> u32 option" where
  "decode4 b0 b1 b2 b3 =
     (let c = (b0 - 0xF0) * 0x40000 + (b1 - 0x80) * 0x1000 + (b2 - 0x80) * 0x40 + (b3 - 0x80)
      in if is_cont b1 \<and> is_cont b2 \<and> is_cont b3 \<and> 0x10000 \<le> c \<and> is_scalar c
         then Some c else None)"

text \<open>One scalar from the front of the input, with the input that remains.\<close>

fun decode_scalar :: "string \<Rightarrow> (u32 \<times> string) option" where
  "decode_scalar [] = None"
| "decode_scalar (b0 # bs) =
     (if byte_value b0 < 0x80 then Some (byte_value b0, bs)
      else if 0xC0 \<le> byte_value b0 \<and> byte_value b0 < 0xE0 then
        (case bs of
           b1 # r \<Rightarrow> map_option (\<lambda>c. (c, r)) (decode2 (byte_value b0) (byte_value b1))
         | _ \<Rightarrow> None)
      else if 0xE0 \<le> byte_value b0 \<and> byte_value b0 < 0xF0 then
        (case bs of
           b1 # b2 # r \<Rightarrow>
             map_option (\<lambda>c. (c, r)) (decode3 (byte_value b0) (byte_value b1) (byte_value b2))
         | _ \<Rightarrow> None)
      else if 0xF0 \<le> byte_value b0 \<and> byte_value b0 < 0xF8 then
        (case bs of
           b1 # b2 # b3 # r \<Rightarrow>
             map_option (\<lambda>c. (c, r))
               (decode4 (byte_value b0) (byte_value b1) (byte_value b2) (byte_value b3))
         | _ \<Rightarrow> None)
      else None)"

lemma decode_scalar_shorter: "decode_scalar bs = Some (c, r) \<Longrightarrow> length r < length bs"
  by (cases bs) (auto split: if_splits list.splits)

function utf8_decode :: "string \<Rightarrow> u32 list option" where
  "utf8_decode bs =
     (if bs = [] then Some []
      else case decode_scalar bs of
             None \<Rightarrow> None
           | Some (c, r) \<Rightarrow>
               (case utf8_decode r of None \<Rightarrow> None | Some cs \<Rightarrow> Some (c # cs)))"
  by pat_completeness auto
termination
  by (relation "measure length") (auto dest: decode_scalar_shorter)

declare utf8_decode.simps [simp del]

text \<open>
  Modelled from the spec: the converter, which throws where the strict decoder or encoder
  fails. The text of \<^verbatim>\<open>what()\<close> is the one libstdc++ gives; it only appears where an
  error line is written out.
\<close>

definition utf8_converter :: converter where
  "utf8_converter =
     \<lparr>from_bytes = (\<lambda>s. case utf8_decode s of
                            None \<Rightarrow> Inl (range_error ''wstring_convert::from_bytes'')
                          | Some cs \<Rightarrow> Inr cs),
      to_bytes = (\<lambda>cs. case utf8_encode cs of
                           None \<Rightarrow> Inl (range_error ''wstring_convert::to_bytes'')
                         | Some bs \<Rightarrow> Inr bs)\<rparr>"

subsection \<open>The converter on an incomplete last sequence\<close>

text \<open>
  The strict converter above throws on every malformed input. The converter of the
  standard library does not: \<^verbatim>\<open>from_bytes\<close> throws only when the conversion facet
  reports an error, and input that ends inside a multi-byte sequence is reported as
  partial, not as an error, so \<^verbatim>\<open>from_bytes\<close> returns the scalars converted before the
  incomplete sequence. \<open>incomplete\<close> says that the input is a lead byte followed by fewer
  continuation bytes than the lead byte announces.
\<close>

definition incomplete :: "string \<Rightarrow> bool" where
  "incomplete bs =
     (case bs of
        [] \<Rightarrow> False
      | b0 # r \<Rightarrow>
          list_all (\<lambda>b. is_cont (byte_value b)) r \<and>
          (0xC2 \<le> byte_value b0 \<and> byte_value b0 < 0xE0 \<and> length r < 1 \<or>
           0xE0 \<le> byte_value b0 \<and> byte_value b0 < 0xF0 \<and> length r < 2 \<or>
           0xF0 \<le> byte_value b0 \<and> byte_value b0 < 0xF5 \<and> length r < 3))"

function lenient_decode :: "string \<Rightarrow> u32 list option" where
  "lenient_decode bs =
     (if bs = [] then Some []
      else case decode_scalar bs of
             None \<Rightarrow> if incomplete bs then Some [] else None
           | Some (c, r) \<Rightarrow>
               (case lenient_decode r of None \<Rightarrow> None | Some cs \<Rightarrow> Some (c # cs)))"
  by pat_completeness auto
termination
  by (relation "measure length") (auto dest: decode_scalar_shorter)

declare lenient_decode.simps [simp del]

text \<open>
  The converter that returns on an incomplete last sequence. Only this behaviour is taken
  from the library; on every other input the converter is the strict one, and it is used
  below only on inputs that are valid UTF-8 or end in a lone lead byte.
\<close>

definition lenient_converter :: converter where
  "lenient_converter =
     \<lparr>from_bytes = (\<lambda>s. case lenient_decode s of
                            None \<Rightarrow> Inl (range_error ''wstring_convert::from_bytes'')
                          | Some cs \<Rightarrow> Inr cs),
      to_bytes = (\<lambda>cs. case utf8_encode cs of
                           None \<Rightarrow> Inl (range_error ''wstring_convert::to_bytes'')
                         | Some bs \<Rightarrow> Inr bs)\<rparr>"

text \<open>
  What the general properties below require of a converter: it converts valid UTF-8 to
  its scalars and valid scalars to their UTF-8 bytes. Nothing is required on input that
  is not valid, so both converters above meet it.
\<close>

definition agrees_on_utf8 :: "converter \<Rightarrow> bool" where
  "agrees_on_utf8 cv \<longleftrightarrow>
     (\<forall>s cs. utf8_decode s = Some cs \<longrightarrow> from_bytes cv s = Inr cs) \<and>
     (\<forall>cs bs. utf8_encode cs = Some bs \<longrightarrow> to_bytes cv cs = Inr bs)"

section \<open>The legacy charset table\<close>

text \<open>
  \<^verbatim>\<open>cp437_to_unicode\<close> is a switch over 160 case labels with \<^verbatim>\<open>default: return c\<close>. The
  label \<^verbatim>\<open>0x0A\<close> is commented out in the source and is therefore absent here.
\<close>

definition cp437_to_unicode :: "u32 \<Rightarrow> u32" where
  "cp437_to_unicode c =
    (if c = 0x00 then 0x2400 else if c = 0x01 then 0x263A else
     if c = 0x02 then 0x263B else if c = 0x03 then 0x2665 else
     if c = 0x04 then 0x2666 else if c = 0x05 then 0x2663 else
     if c = 0x06 then 0x2660 else if c = 0x07 then 0x2022 else
     if c = 0x08 then 0x25D8 else if c = 0x09 then 0x25CB else
     if c = 0x0B then 0x2642 else if c = 0x0C then 0x2640 else
     if c = 0x0D then 0x266A else if c = 0x0E then 0x266B else
     if c = 0x0F then 0x263C else if c = 0x10 then 0x25BA else
     if c = 0x11 then 0x25C4 else if c = 0x12 then 0x2195 else
     if c = 0x13 then 0x203C else if c = 0x14 then 0x00B6 else
     if c = 0x15 then 0x00A7 else if c = 0x16 then 0x25AC else
     if c = 0x17 then 0x21A8 else if c = 0x18 then 0x2191 else
     if c = 0x19 then 0x2193 else if c = 0x1A then 0x2192 else
     if c = 0x1B then 0x2190 else if c = 0x1C then 0x221F else
     if c = 0x1D then 0x2194 else if c = 0x1E then 0x25B2 else
     if c = 0x1F then 0x25BC else if c = 0x7F then 0x2302 else
     if c = 0x80 then 0x00C7 else if c = 0x81 then 0x00FC else
     if c = 0x82 then 0x00E9 else if c = 0x83 then 0x00E2 else
     if c = 0x84 then 0x00E4 else if c = 0x85 then 0x00E0 else
     if c = 0x86 then 0x00E5 else if c = 0x87 then 0x00E7 else
     if c = 0x88 then 0x00EA else if c = 0x89 then 0x00EB else
     if c = 0x8A then 0x00E8 else if c = 0x8B then 0x00EF else
     if c = 0x8C then 0x00EE else if c = 0x8D then 0x00EC else
     if c = 0x8E then 0x00C4 else if c = 0x8F then 0x00C5 else
     if c = 0x90 then 0x00C9 else if c = 0x91 then 0x00E6 else
     if c = 0x92 then 0x00C6 else if c = 0x93 then 0x00F4 else
     if c = 0x94 then 0x00F6 else if c = 0x95 then 0x00F2 else
     if c = 0x96 then 0x00FB else if c = 0x97 then 0x00F9 else
     if c = 0x98 then 0x00FF else if c = 0x99 then 0x00D6 else
     if c = 0x9A then 0x00DC else if c = 0x9B then 0x00A2 else
     if c = 0x9C then 0x00A3 else if c = 0x9D then 0x00A5 else
     if c = 0x9E then 0x20A7 else if c = 0x9F then 0x0192 else
     if c = 0xA0 then 0x00E1 else if c = 0xA1 then 0x00ED else
     if c = 0xA2 then 0x00F3 else if c = 0xA3 then 0x00FA else
     if c = 0xA4 then 0x00F1 else if c = 0xA5 then 0x00D1 else
     if c = 0xA6 then 0x00AA else if c = 0xA7 then 0x00BA else
     if c = 0xA8 then 0x00BF else if c = 0xA9 then 0x2310 else
     if c = 0xAA then 0x00AC else if c = 0xAB then 0x00BD else
     if c = 0xAC then 0x00BC else if c = 0xAD then 0x00A1 else
     if c = 0xAE then 0x00AB else if c = 0xAF then 0x00BB else
     if c = 0xB0 then 0x2591 else if c = 0xB1 then 0x2592 else
     if c = 0xB2 then 0x2593 else if c = 0xB3 then 0x2502 else
     if c = 0xB4 then 0x2524 else if c = 0xB5 then 0x2561 else
     if c = 0xB6 then 0x2562 else if c = 0xB7 then 0x2556 else
     if c = 0xB8 then 0x2555 else if c = 0xB9 then 0x2563 else
     if c = 0xBA then 0x2551 else if c = 0xBB then 0x2557 else
     if c = 0xBC then 0x255D else if c = 0xBD then 0x255C else
     if c = 0xBE then 0x255B else if c = 0xBF then 0x2510 else
     if c = 0xC0 then 0x2514 else if c = 0xC1 then 0x2534 else
     if c = 0xC2 then 0x252C else if c = 0xC3 then 0x251C else
     if c = 0xC4 then 0x2500 else if c = 0xC5 then 0x253C else
     if c = 0xC6 then 0x255E else if c = 0xC7 then 0x255F else
     if c = 0xC8 then 0x255A else if c = 0xC9 then 0x2554 else
     if c = 0xCA then 0x2569 else if c = 0xCB then 0x2566 else
     if c = 0xCC then 0x2560 else if c = 0xCD then 0x2550 else
     if c = 0xCE then 0x256C else if c = 0xCF then 0x2567 else
     if c = 0xD0 then 0x2568 else if c = 0xD1 then 0x2564 else
     if c = 0xD2 then 0x2565 else if c = 0xD3 then 0x2559 else
     if c = 0xD4 then 0x2558 else if c = 0xD5 then 0x2552 else
     if c = 0xD6 then 0x2553 else if c = 0xD7 then 0x256B else
     if c = 0xD8 then 0x256A else if c = 0xD9 then 0x2518 else
     if c = 0xDA then 0x250C else if c = 0xDB then 0x2588 else
     if c = 0xDC then 0x2584 else if c = 0xDD then 0x258C else
     if c = 0xDE then 0x2590 else if c = 0xDF then 0x2580 else
     if c = 0xE0 then 0x03B1 else if c = 0xE1 then 0x00DF else
     if c = 0xE2 then 0x0393 else if c = 0xE3 then 0x03C0 else
     if c = 0xE4 then 0x03A3 else if c = 0xE5 then 0x03C3 else
     if c = 0xE6 then 0x00B5 else if c = 0xE7 then 0x03C4 else
     if c = 0xE8 then 0x03A6 else if c = 0xE9 then 0x0398 else
     if c = 0xEA then 0x03A9 else if c = 0xEB then 0x03B4 else
     if c = 0xEC then 0x221E else if c = 0xED then 0x03C6 else
     if c = 0xEE then 0x03B5 else if c = 0xEF then 0x2229 else
     if c = 0xF0 then 0x2261 else if c = 0xF1 then 0x00B1 else
     if c = 0xF2 then 0x2265 else if c = 0xF3 then 0x2264 else
     if c = 0xF4 then 0x2320 else if c = 0xF5 then 0x2321 else
     if c = 0xF6 then 0x00F7 else if c = 0xF7 then 0x2248 else
     if c = 0xF8 then 0x00B0 else if c = 0xF9 then 0x2219 else
     if c = 0xFA then 0x00B7 else if c = 0xFB then 0x221A else
     if c = 0xFC then 0x207F else if c = 0xFD then 0x00B2 else
     if c = 0xFE then 0x25A0 else if c = 0xFF then 0x00A0 else
     c)"

text \<open>
  The upper half of code page 437 as the published mapping of the code page lists it
  (byte \<open>0x80 + i\<close> at position \<open>i\<close>). It is written down independently of the switch above
  and is what the switch is compared against.
\<close>

definition cp437_documented :: "u32 list" where
  "cp437_documented =
    [0x00C7, 0x00FC, 0x00E9, 0x00E2, 0x00E4, 0x00E0, 0x00E5, 0x00E7,
     0x00EA, 0x00EB, 0x00E8, 0x00EF, 0x00EE, 0x00EC, 0x00C4, 0x00C5,
     0x00C9, 0x00E6, 0x00C6, 0x00F4, 0x00F6, 0x00F2, 0x00FB, 0x00F9,
     0x00FF, 0x00D6, 0x00DC, 0x00A2, 0x00A3, 0x00A5, 0x20A7, 0x0192,
     0x00E1, 0x00ED, 0x00F3, 0x00FA, 0x00F1, 0x00D1, 0x00AA, 0x00BA,
     0x00BF, 0x2310, 0x00AC, 0x00BD, 0x00BC, 0x00A1, 0x00AB, 0x00BB,
     0x2591, 0x2592, 0x2593, 0x2502, 0x2524, 0x2561, 0x2562, 0x2556,
     0x2555, 0x2563, 0x2551, 0x2557, 0x255D, 0x255C, 0x255B, 0x2510,
     0x2514, 0x2534, 0x252C, 0x251C, 0x2500, 0x253C, 0x255E, 0x255F,
     0x255A, 0x2554, 0x2569, 0x2566, 0x2560, 0x2550, 0x256C, 0x2567,
     0x2568, 0x2564, 0x2565, 0x2559, 0x2558, 0x2552, 0x2553, 0x256B,
     0x256A, 0x2518, 0x250C, 0x2588, 0x2584, 0x258C, 0x2590, 0x2580,
     0x03B1, 0x00DF, 0x0393, 0x03C0, 0x03A3, 0x03C3, 0x00B5, 0x03C4,
     0x03A6, 0x0398, 0x03A9, 0x03B4, 0x221E, 0x03C6, 0x03B5, 0x2229,
     0x2261, 0x00B1, 0x2265, 0x2264, 0x2320, 0x2321, 0x00F7, 0x2248,
     0x00B0, 0x2219, 0x00B7, 0x221A, 0x207F, 0x00B2, 0x25A0, 0x00A0]"


section \<open>Splitting into lines\<close>

text \<open>
  \<^verbatim>\<open>split\<close> calls \<^verbatim>\<open>std::getline\<close> until it fails. One call extracts characters up to the
  next delimiter, which it consumes and does not store; it fails only when it extracts
  nothing at all, that is at the end of the input. \<open>token\<close> holds the characters
  extracted so far by the call in progress.
\<close>

fun getline_loop :: "string \<Rightarrow> char \<Rightarrow> string \<Rightarrow> string list" where
  "getline_loop [] delimiter token = (if token = [] then [] else [token])"
| "getline_loop (c # cs) delimiter token =
     (if c = delimiter then token # getline_loop cs delimiter []
      else getline_loop cs delimiter (token @ [c]))"

definition split :: "string \<Rightarrow> char \<Rightarrow> string list" where
  "split s delimiter = getline_loop s delimiter []"

section \<open>The grapheme counter\<close>

text \<open>
  \<^verbatim>\<open>*it\<close> is a \<^verbatim>\<open>char\<close>, promoted to \<^verbatim>\<open>int\<close> before \<^verbatim>\<open>&\<close> and \<^verbatim>\<open><<\<close>. With a signed
  \<^verbatim>\<open>char\<close> the promotion extends the sign; the masks only read bits 6 and 7, which are
  the same under either signedness. The shift is the shift of a 32-bit two's complement
  value.
\<close>

definition promote :: "char \<Rightarrow> 32 word" where
  "promote c = scast (of_char c :: 8 word)"

lemma shift_condition_bound:
  fixes x :: "32 word"
  assumes "push_bit n x AND 0b11000000 = 0b10000000"
  shows "n < 8"
proof -
  have "bit (push_bit n x AND 0b11000000) 7 = bit (0b10000000 :: 32 word) 7"
    by (simp only: assms)
  then show ?thesis
    by (simp add: bit_and_iff bit_push_bit_iff)
qed

text \<open>The inner \<^verbatim>\<open>while\<close> loop, which increments \<^verbatim>\<open>bytes\<close>.\<close>

function count_bytes :: "char \<Rightarrow> nat \<Rightarrow> nat" where
  "count_bytes c bytes =
     (if push_bit bytes (promote c) AND 0b11000000 = 0b10000000
      then count_bytes c (Suc bytes) else bytes)"
  by pat_completeness auto
termination
  by (relation "measure (\<lambda>(c, bytes). 8 - bytes)") (auto dest: shift_condition_bound)

declare count_bytes.simps [simp del]

lemma count_bytes_ge: "bytes \<le> count_bytes c bytes"
  by (induction c bytes rule: count_bytes.induct) (subst count_bytes.simps, auto)

text \<open>The value of \<^verbatim>\<open>bytes\<close> at \<^verbatim>\<open>it += bytes\<close>, for the byte under the iterator.\<close>

definition advance :: "char \<Rightarrow> nat" where
  "advance c = (if promote c AND 0b10000000 \<noteq> 0 then count_bytes c 1 else 1)"

lemma advance_positive: "0 < advance c"
  using count_bytes_ge [of 1 c] by (simp add: advance_def)

text \<open>
  The outer loop. The iterator is an index; the loop ends only when the index equals the
  length. An index beyond the length is the iterator past \<^verbatim>\<open>s.end()\<close>: the comparison
  \<^verbatim>\<open>it != s.end()\<close> still holds and the next \<^verbatim>\<open>*it\<close> reads outside the string.
\<close>

function grapheme_loop :: "string \<Rightarrow> nat \<Rightarrow> nat \<Rightarrow> nat option" where
  "grapheme_loop s it n =
     (if it = length s then Some n
      else if length s < it then None
      else grapheme_loop s (it + advance (s ! it)) (Suc n))"
  by pat_completeness auto
termination
  by (relation "measure (\<lambda>(s, it, n). Suc (length s) - it)")
    (use advance_positive in \<open>auto simp add: less_Suc_eq_le diff_less_mono2\<close>)

declare grapheme_loop.simps [simp del]

definition get_grapheme_count :: "string \<Rightarrow> nat option" where
  "get_grapheme_count s = grapheme_loop s 0 0"

text \<open>A string that ends with a byte \<open>110xxxxx\<close>, the lead byte of a two-byte sequence.\<close>

definition ends_in_lead :: "string \<Rightarrow> bool" where
  "ends_in_lead s \<longleftrightarrow> s \<noteq> [] \<and> 0xC0 \<le> byte_value (last s) \<and> byte_value (last s) \<le> 0xDF"

section \<open>The reporter and the file driver\<close>

text \<open>The global flag; the program never assigns it.\<close>

definition diff_only :: bool where
  "diff_only = True"

text \<open>
  The \<^verbatim>\<open>for\<close> loop of \<^verbatim>\<open>check_messages\<close> over the two line vectors, which have the same
  size when the loop is reached. It returns the text written to standard output.
\<close>

fun report_lines :: "string list \<Rightarrow> string list \<Rightarrow> string option" where
  "report_lines (l # ls) (l' # ls') =
     (if diff_only \<and> l = l' then report_lines ls ls'
      else case get_grapheme_count l of
             None \<Rightarrow> None
           | Some graphemes \<Rightarrow>
               (case report_lines ls ls' of
                  None \<Rightarrow> None
                | Some rows \<Rightarrow>
                    Some (l @ (if graphemes < 80 then replicate (80 - graphemes) CHR '' '' else [])
                          @ '' | '' @ l' @ [newline] @ rows)))"
| "report_lines _ _ = Some []"

text \<open>
  \<^verbatim>\<open>check_messages\<close>, given the string that \<^verbatim>\<open>get_metadata("message_raw")\<close> returned. Every
  \<^verbatim>\<open>throw\<close> comes before the first write to standard output, so a call either throws or
  returns the text it wrote.
\<close>

definition check_messages :: "converter \<Rightarrow> string \<Rightarrow> string \<Rightarrow> string result" where
  "check_messages cv filename message =
     (if message = [] then Ok []
      else case utf8_to_codepoints cv message of
        Inl e \<Rightarrow> Raise e
      | Inr codepoints \<Rightarrow>
          (case codepoints_to_utf8 cv (map cp437_to_unicode codepoints) of
             Inl e \<Rightarrow> Raise e
           | Inr new_message \<Rightarrow>
               (let message_lines = split message newline;
                    new_message_lines = split new_message newline
                in if length message_lines \<noteq> length new_message_lines
                   then Raise (runtime_error ''internal error: size mismatch'')
                   else if message = new_message then Ok []
                   else (case report_lines message_lines new_message_lines of
                           None \<Rightarrow> Overrun
                         | Some rows \<Rightarrow>
                             Ok (''Difference in '' @ filename @ '':'' @ [newline, newline]
                                 @ rows @ [newline])))))"

text \<open>
  \<^verbatim>\<open>process_file\<close>. What the module parser does with the file is its second argument:
  \<open>Inl e\<close> when the constructor of \<^verbatim>\<open>openmpt::module\<close> throws \<open>e\<close>, \<open>Inr message\<close> when it
  succeeds and the module holds \<open>message\<close>. The handler catches every \<^verbatim>\<open>std::exception\<close>.
\<close>

definition process_file ::
  "converter \<Rightarrow> string \<Rightarrow> exn + string \<Rightarrow> streams \<Rightarrow> streams option" where
  "process_file cv filename file st =
     (case (case file of Inl e \<Rightarrow> Raise e | Inr message \<Rightarrow> check_messages cv filename message) of
        Ok text \<Rightarrow> Some (st\<lparr>out := out st @ text\<rparr>)
      | Raise e \<Rightarrow>
          Some (st\<lparr>err := err st @ ''can't open '' @ filename @ '': '' @ what e @ [newline]\<rparr>)
      | Overrun \<Rightarrow> None)"

text \<open>
  \<^verbatim>\<open>main\<close>: the loop over the arguments, then \<^verbatim>\<open>return 0\<close>. The result is \<open>None\<close> when the
  run met undefined behaviour.
\<close>

fun main_loop :: "converter \<Rightarrow> (string \<times> (exn + string)) list \<Rightarrow> streams \<Rightarrow> streams option" where
  "main_loop cv [] st = Some st"
| "main_loop cv ((filename, file) # rest) st =
     (case process_file cv filename file st of
        None \<Rightarrow> None
      | Some st' \<Rightarrow> main_loop cv rest st')"

definition main :: "converter \<Rightarrow> (string \<times> (exn + string)) list \<Rightarrow> (streams \<times> int) option" where
  "main cv argv =
     (case main_loop cv argv \<lparr>out = [], err = []\<rparr> of
        None \<Rightarrow> None
      | Some st \<Rightarrow> Some (st, 0))"

section \<open>Properties of the table\<close>

lemma cp437_upper_half_list:
  "map cp437_to_unicode [0x80..<0x100] = cp437_documented"
  by (simp add: cp437_to_unicode_def cp437_documented_def upt_rec_numeral)

lemma cp437_above_byte: "0xFF < c \<Longrightarrow> cp437_to_unicode c = c"
  by (simp add: cp437_to_unicode_def)

lemma cp437_byte_bound: "c \<le> 0xFF \<Longrightarrow> cp437_to_unicode c \<le> 0x266B"
  by (simp add: cp437_to_unicode_def)

lemma cp437_printable: "0x20 \<le> c \<Longrightarrow> c \<le> 0x7E \<Longrightarrow> cp437_to_unicode c = c"
  by (simp add: cp437_to_unicode_def)

lemma cp437_newline_iff: "cp437_to_unicode c = 0x0A \<longleftrightarrow> c = 0x0A"
  by (simp add: cp437_to_unicode_def)

text \<open>
  Claim C1. For every byte value \<open>b\<close> from \<open>0x80\<close> to \<open>0xFF\<close> the table returns exactly the
  documented code page 437 scalar for \<open>b\<close>; the documented list has one entry for each of
  the 128 bytes.
\<close>

theorem cp437_upper_half:
  "length cp437_documented = 128 \<and>
   (\<forall>b. 0x80 \<le> b \<and> b \<le> 0xFF \<longrightarrow> cp437_to_unicode b = cp437_documented ! (b - 0x80))"
proof (intro conjI allI impI)
  show "length cp437_documented = 128"
    by (simp add: cp437_documented_def)
next
  fix b :: nat
  assume b: "0x80 \<le> b \<and> b \<le> 0xFF"
  then have i: "b - 0x80 < 0x100 - 0x80"
    by arith
  have "cp437_documented ! (b - 0x80) = map cp437_to_unicode [0x80..<0x100] ! (b - 0x80)"
    by (simp only: cp437_upper_half_list)
  also have "\<dots> = cp437_to_unicode (0x80 + (b - 0x80))"
    using i by (simp only: nth_map_upt)
  also have "0x80 + (b - 0x80) = b"
    using b by arith
  finally show "cp437_to_unicode b = cp437_documented ! (b - 0x80)"
    by simp
qed

theorem cp437_upper_half_witness:
  "cp437_to_unicode 0x80 = 0x00C7 \<and> cp437_to_unicode 0x81 = 0x00FC \<and>
   cp437_to_unicode 0xFF = 0x00A0"
  using cp437_upper_half by (simp add: cp437_documented_def)

text \<open>
  Claim C2. For every byte value from \<open>0x20\<close> to \<open>0x7E\<close> (printable ASCII) and for the
  newline \<open>0x0A\<close> the table returns the byte itself.
\<close>

theorem cp437_identity_on_printable_and_newline:
  "(0x20 \<le> b \<and> b \<le> 0x7E) \<or> b = 0x0A \<Longrightarrow> cp437_to_unicode b = b"
proof (erule disjE)
  assume "0x20 \<le> b \<and> b \<le> 0x7E"
  then show ?thesis
    by (simp add: cp437_printable)
next
  assume "b = 0x0A"
  then show ?thesis
    using cp437_newline_iff [of b] by simp
qed

theorem cp437_identity_on_printable_and_newline_witness:
  "cp437_to_unicode 0x41 = 0x41 \<and> cp437_to_unicode 0x0A = 0x0A"
  using cp437_identity_on_printable_and_newline [of "0x41"]
    cp437_identity_on_printable_and_newline [of "0x0A"]
  by simp

text \<open>
  Claim C10, as amended. The table is total, and every input above \<open>0xFF\<close> is returned
  unchanged; so a converted scalar that lies above \<open>0xFF\<close> is a fixed point of the table,
  and a message whose scalars all lie above \<open>0xFF\<close> is left as it is. Idempotence on every
  converted message does not hold: the table sends \<open>0x80\<close> to \<open>0xC7\<close>, which is itself a
  case label and is sent on to \<open>0x255F\<close>.
\<close>

theorem cp437_fixes_scalars_above_byte:
  "(0xFF < c \<longrightarrow> cp437_to_unicode c = c) \<and>
   (0xFF < cp437_to_unicode c \<longrightarrow> cp437_to_unicode (cp437_to_unicode c) = cp437_to_unicode c) \<and>
   (list_all (\<lambda>c. 0xFF < c) cs \<longrightarrow> map cp437_to_unicode cs = cs)"
proof (intro conjI impI)
  assume "list_all (\<lambda>c. 0xFF < c) cs"
  then show "map cp437_to_unicode cs = cs"
    by (induction cs) (simp_all add: cp437_above_byte)
qed (simp_all add: cp437_above_byte)

theorem cp437_fixes_scalars_above_byte_witness:
  "cp437_to_unicode 0x2500 = 0x2500 \<and>
   cp437_to_unicode (cp437_to_unicode 0xC4) = cp437_to_unicode 0xC4 \<and>
   map cp437_to_unicode [0x2500, 0x20AC] = [0x2500, 0x20AC]"
proof -
  have h1: "(0xFF::nat) < 0x2500"
    by simp
  have h2: "0xFF < cp437_to_unicode 0xC4"
    by (simp add: cp437_to_unicode_def)
  have h3: "list_all (\<lambda>c. 0xFF < c) [0x2500, 0x20AC :: nat]"
    by simp
  show ?thesis
    using h1 h2 h3 cp437_fixes_scalars_above_byte [of "0x2500" "[0x2500, 0x20AC]"]
      cp437_fixes_scalars_above_byte [of "0xC4" "[]"]
    by blast
qed

theorem cp437_not_idempotent:
  "map cp437_to_unicode (map cp437_to_unicode [0x80]) \<noteq> map cp437_to_unicode [0x80]"
  by (simp add: cp437_to_unicode_def)


section \<open>Properties of the codec\<close>

subsection \<open>Bytes and numbers\<close>

lemma byte_value_less: "byte_value b < 0x100"
  by (simp add: byte_value_def)

lemma byte_byte_value: "byte (byte_value b) = b"
  by (simp add: byte_def byte_value_def)

lemma byte_value_byte: "n < 0x100 \<Longrightarrow> byte_value (byte n) = n"
  by (simp add: byte_def byte_value_def)

lemma byte_value_newline: "byte_value newline = 0x0A"
  by (simp add: byte_value_def newline_def)

lemma byte_value_eq_iff: "byte_value a = byte_value b \<longleftrightarrow> a = b"
  by (simp add: byte_value_def)


lemma byte_eq_iff: "byte n = c \<longleftrightarrow> n mod 0x100 = byte_value c"
proof
  assume "byte n = c"
  then have "byte_value (byte n) = byte_value c"
    by simp
  then show "n mod 0x100 = byte_value c"
    by (simp add: byte_def byte_value_def)
next
  assume "n mod 0x100 = byte_value c"
  then have "byte (n mod 0x100) = byte (byte_value c)"
    by simp
  then show "byte n = c"
    by (simp add: byte_def byte_value_def)
qed

subsection \<open>Splitting a number into six-bit groups\<close>

lemma div_0x1000: "(c::nat) div 0x1000 = c div 0x40 div 0x40"
  by (simp add: div_mult2_eq [symmetric])

lemma div_0x40000: "(c::nat) div 0x40000 = c div 0x40 div 0x40 div 0x40"
  by (simp add: div_mult2_eq [symmetric])

lemma shift2: "(u * 0x40 + v) * 0x40 = u * 0x1000 + v * (0x40::nat)"
  by simp

lemma shift3: "(u * 0x1000 + v * 0x40 + w) * 0x40 = u * 0x40000 + v * 0x1000 + w * (0x40::nat)"
  by simp

lemma join2: "(c::nat) div 0x40 * 0x40 + c mod 0x40 = c"
  by simp

lemma join3:
  "(c::nat) div 0x1000 * 0x1000 + c div 0x40 mod 0x40 * 0x40 + c mod 0x40 = c"
proof -
  have "c div 0x40 div 0x40 * 0x1000 + c div 0x40 mod 0x40 * 0x40
      = (c div 0x40 div 0x40 * 0x40 + c div 0x40 mod 0x40) * 0x40"
    by (rule shift2 [symmetric])
  also have "\<dots> = c div 0x40 * 0x40"
    by (simp only: join2)
  finally show ?thesis
    by (simp only: div_0x1000 join2)
qed

lemma join4:
  "(c::nat) div 0x40000 * 0x40000 + c div 0x1000 mod 0x40 * 0x1000 + c div 0x40 mod 0x40 * 0x40
     + c mod 0x40 = c"
proof -
  have "c div 0x40 div 0x1000 * 0x40000 + c div 0x40 div 0x40 mod 0x40 * 0x1000
        + c div 0x40 mod 0x40 * 0x40
      = (c div 0x40 div 0x1000 * 0x1000 + c div 0x40 div 0x40 mod 0x40 * 0x40
        + c div 0x40 mod 0x40) * 0x40"
    by (rule shift3 [symmetric])
  also have "\<dots> = c div 0x40 * 0x40"
    by (simp only: join3)
  finally show ?thesis
    by (simp only: div_0x1000 div_0x40000 join2)
qed

lemma part2:
  assumes "x < 0x40"
  shows "((a::nat) * 0x40 + x) div 0x40 = a" and "(a * 0x40 + x) mod 0x40 = x"
  using assms by simp_all

lemma part3:
  assumes "x < 0x40" "y < 0x40"
  shows "((a::nat) * 0x1000 + x * 0x40 + y) div 0x1000 = a"
    and "(a * 0x1000 + x * 0x40 + y) div 0x40 mod 0x40 = x"
    and "(a * 0x1000 + x * 0x40 + y) mod 0x40 = y"
    and "(a * 0x1000 + x * 0x40 + y) div 0x40 = a * 0x40 + x"
proof -
  have c: "a * 0x1000 + x * 0x40 + y = (a * 0x40 + x) * 0x40 + y"
    by (simp only: shift2)
  show "(a * 0x1000 + x * 0x40 + y) mod 0x40 = y"
    by (simp only: c part2 [OF assms(2)])
  show d: "(a * 0x1000 + x * 0x40 + y) div 0x40 = a * 0x40 + x"
    by (simp only: c part2 [OF assms(2)])
  show "(a * 0x1000 + x * 0x40 + y) div 0x40 mod 0x40 = x"
    by (simp only: d part2 [OF assms(1)])
  show "(a * 0x1000 + x * 0x40 + y) div 0x1000 = a"
    by (simp only: div_0x1000 d part2 [OF assms(1)])
qed

lemma part4:
  assumes "x < 0x40" "y < 0x40" "z < 0x40"
  shows "((a::nat) * 0x40000 + x * 0x1000 + y * 0x40 + z) div 0x40000 = a"
    and "(a * 0x40000 + x * 0x1000 + y * 0x40 + z) div 0x1000 mod 0x40 = x"
    and "(a * 0x40000 + x * 0x1000 + y * 0x40 + z) div 0x40 mod 0x40 = y"
    and "(a * 0x40000 + x * 0x1000 + y * 0x40 + z) mod 0x40 = z"
proof -
  have c: "a * 0x40000 + x * 0x1000 + y * 0x40 + z = (a * 0x1000 + x * 0x40 + y) * 0x40 + z"
    by (simp only: shift3)
  show "(a * 0x40000 + x * 0x1000 + y * 0x40 + z) mod 0x40 = z"
    by (simp only: c part2 [OF assms(3)])
  have d: "(a * 0x40000 + x * 0x1000 + y * 0x40 + z) div 0x40 = a * 0x1000 + x * 0x40 + y"
    by (simp only: c part2 [OF assms(3)])
  show "(a * 0x40000 + x * 0x1000 + y * 0x40 + z) div 0x40 mod 0x40 = y"
    by (simp only: d part3 [OF assms(1,2)])
  show "(a * 0x40000 + x * 0x1000 + y * 0x40 + z) div 0x1000 mod 0x40 = x"
    by (simp only: div_0x1000 d part3 (4) [OF assms(1,2)] part2 [OF assms(1)])
  show "(a * 0x40000 + x * 0x1000 + y * 0x40 + z) div 0x40000 = a"
    by (simp only: div_0x40000 d part3 (4) [OF assms(1,2)] part2 [OF assms(1)])
qed

lemma mod_0x40_less: "(x::nat) mod 0x40 < 0x80"
proof -
  have "x mod 0x40 < 0x40"
    by simp
  then show ?thesis
    by linarith
qed

subsection \<open>Two, three and four bytes\<close>

lemma decode2_encode:
  assumes "0x80 \<le> c" "c < 0x800"
  shows "decode2 (0xC0 + c div 0x40) (0x80 + c mod 0x40) = Some c"
  using assms by (simp add: decode2_def is_cont_def)

lemma decode3_encode:
  assumes "0x800 \<le> c" "c < 0x10000" "is_scalar c"
  shows "decode3 (0xE0 + c div 0x1000) (0x80 + c div 0x40 mod 0x40) (0x80 + c mod 0x40) = Some c"
proof -
  have "c div 0x40 mod 0x40 < 0x40" "c mod 0x40 < 0x40"
    by simp_all
  then have "is_cont (0x80 + c div 0x40 mod 0x40)" "is_cont (0x80 + c mod 0x40)"
    unfolding is_cont_def by simp_all
  then show ?thesis
    using assms by (simp add: decode3_def join3)
qed

lemma decode4_encode:
  assumes "0x10000 \<le> c" "is_scalar c"
  shows "decode4 (0xF0 + c div 0x40000) (0x80 + c div 0x1000 mod 0x40)
           (0x80 + c div 0x40 mod 0x40) (0x80 + c mod 0x40) = Some c"
proof -
  have "c div 0x1000 mod 0x40 < 0x40" "c div 0x40 mod 0x40 < 0x40" "c mod 0x40 < 0x40"
    by simp_all
  then have "is_cont (0x80 + c div 0x1000 mod 0x40)" "is_cont (0x80 + c div 0x40 mod 0x40)"
      "is_cont (0x80 + c mod 0x40)"
    unfolding is_cont_def by simp_all
  then show ?thesis
    using assms by (simp add: decode4_def join4)
qed


lemma decode2_sound:
  assumes "0xC0 \<le> b0" "b0 < 0xE0" "decode2 b0 b1 = Some c"
  shows "0x80 \<le> c \<and> c < 0x800 \<and> b0 = 0xC0 + c div 0x40 \<and> b1 = 0x80 + c mod 0x40"
proof -
  define a x where "a = b0 - 0xC0" and "x = b1 - 0x80"
  from assms have k: "is_cont b1" "0x80 \<le> c" and c: "c = a * 0x40 + x"
    by (auto simp add: decode2_def Let_def a_def x_def split: if_splits)
  have x: "x < 0x40" and a: "a < 0x20"
    using k(1) assms by (auto simp add: is_cont_def a_def x_def)
  have b: "b0 = 0xC0 + a" "b1 = 0x80 + x"
    using k(1) assms by (auto simp add: is_cont_def a_def x_def)
  have "c div 0x40 = a" "c mod 0x40 = x"
    unfolding c by (rule part2 [OF x])+
  moreover have "c < 0x800"
    unfolding c using x a by linarith
  ultimately show ?thesis
    using k b by simp
qed

lemma decode3_sound:
  assumes "0xE0 \<le> b0" "b0 < 0xF0" "decode3 b0 b1 b2 = Some c"
  shows "0x800 \<le> c \<and> c < 0x10000 \<and> is_scalar c \<and> b0 = 0xE0 + c div 0x1000 \<and>
         b1 = 0x80 + c div 0x40 mod 0x40 \<and> b2 = 0x80 + c mod 0x40"
proof -
  define a x y where "a = b0 - 0xE0" and "x = b1 - 0x80" and "y = b2 - 0x80"
  from assms have k: "is_cont b1" "is_cont b2" "0x800 \<le> c" "is_scalar c"
    and c: "c = a * 0x1000 + x * 0x40 + y"
    by (auto simp add: decode3_def Let_def a_def x_def y_def split: if_splits)
  have x: "x < 0x40" and y: "y < 0x40" and a: "a < 0x10"
    using k(1,2) assms by (auto simp add: is_cont_def a_def x_def y_def)
  have b: "b0 = 0xE0 + a" "b1 = 0x80 + x" "b2 = 0x80 + y"
    using k(1,2) assms by (auto simp add: is_cont_def a_def x_def y_def)
  have "c div 0x1000 = a" "c div 0x40 mod 0x40 = x" "c mod 0x40 = y"
    unfolding c by (rule part3 [OF x y])+
  moreover have "c < 0x10000"
    unfolding c using x y a by linarith
  ultimately show ?thesis
    using k b by simp
qed

lemma decode4_sound:
  assumes "0xF0 \<le> b0" "decode4 b0 b1 b2 b3 = Some c"
  shows "0x10000 \<le> c \<and> is_scalar c \<and> b0 = 0xF0 + c div 0x40000 \<and>
         b1 = 0x80 + c div 0x1000 mod 0x40 \<and> b2 = 0x80 + c div 0x40 mod 0x40 \<and>
         b3 = 0x80 + c mod 0x40"
proof -
  define a x y z where "a = b0 - 0xF0" and "x = b1 - 0x80" and "y = b2 - 0x80" and "z = b3 - 0x80"
  from assms have k: "is_cont b1" "is_cont b2" "is_cont b3" "0x10000 \<le> c" "is_scalar c"
    and c: "c = a * 0x40000 + x * 0x1000 + y * 0x40 + z"
    by (auto simp add: decode4_def Let_def a_def x_def y_def z_def split: if_splits)
  have x: "x < 0x40" and y: "y < 0x40" and z: "z < 0x40"
    using k(1,2,3) by (auto simp add: is_cont_def a_def x_def y_def z_def)
  have b: "b0 = 0xF0 + a" "b1 = 0x80 + x" "b2 = 0x80 + y" "b3 = 0x80 + z"
    using k(1,2,3) assms by (auto simp add: is_cont_def a_def x_def y_def z_def)
  have "c div 0x40000 = a" "c div 0x1000 mod 0x40 = x" "c div 0x40 mod 0x40 = y" "c mod 0x40 = z"
    unfolding c by (rule part4 [OF x y z])+
  then show ?thesis
    using k b by simp
qed


subsection \<open>One scalar\<close>

lemma encode_scalar_nonempty: "encode_scalar c \<noteq> []"
  by (simp add: encode_scalar_def)

lemma decode_encode_scalar:
  assumes "is_scalar c"
  shows "decode_scalar (encode_scalar c @ r) = Some (c, r)"
proof -
  have m: "c mod 0x40 < 0x40" "c div 0x40 mod 0x40 < 0x40" "c div 0x1000 mod 0x40 < 0x40"
    by simp_all
  consider "c < 0x80" | "0x80 \<le> c" "c < 0x800" | "0x800 \<le> c" "c < 0x10000" | "0x10000 \<le> c"
    by linarith
  then show ?thesis
  proof cases
    case 1
    then show ?thesis
      by (simp add: encode_scalar_def byte_value_byte)
  next
    case 2
    have d: "c div 0x40 < 0x20"
      using 2 by arith
    then have v: "byte_value (byte (0xC0 + c div 0x40)) = 0xC0 + c div 0x40"
      "byte_value (byte (0x80 + c mod 0x40)) = 0x80 + c mod 0x40"
      using m by (simp_all add: byte_value_byte)
    show ?thesis
      using 2 d by (simp add: encode_scalar_def v decode2_encode)
  next
    case 3
    have d: "c div 0x1000 < 0x10"
      using 3 by arith
    then have v: "byte_value (byte (0xE0 + c div 0x1000)) = 0xE0 + c div 0x1000"
      "byte_value (byte (0x80 + c div 0x40 mod 0x40)) = 0x80 + c div 0x40 mod 0x40"
      "byte_value (byte (0x80 + c mod 0x40)) = 0x80 + c mod 0x40"
      using m by (simp_all add: byte_value_byte)
    show ?thesis
      using 3 d assms by (simp add: encode_scalar_def v decode3_encode)
  next
    case 4
    have "c \<le> 0x10FFFF"
      using assms by (simp add: is_scalar_def)
    then have d: "c div 0x40000 < 0x8"
      by arith
    then have v: "byte_value (byte (0xF0 + c div 0x40000)) = 0xF0 + c div 0x40000"
      "byte_value (byte (0x80 + c div 0x1000 mod 0x40)) = 0x80 + c div 0x1000 mod 0x40"
      "byte_value (byte (0x80 + c div 0x40 mod 0x40)) = 0x80 + c div 0x40 mod 0x40"
      "byte_value (byte (0x80 + c mod 0x40)) = 0x80 + c mod 0x40"
      using m by (simp_all add: byte_value_byte)
    show ?thesis
      using 4 d assms by (simp add: encode_scalar_def v decode4_encode)
  qed
qed

lemma byte_eqI: "byte_value b = n \<Longrightarrow> b = byte n"
  by (auto simp add: byte_byte_value)

lemma decode_scalar_sound:
  assumes "decode_scalar bs = Some (c, r)"
  shows "is_scalar c \<and> bs = encode_scalar c @ r"
proof (cases bs)
  case Nil
  with assms show ?thesis
    by simp
next
  case (Cons b0 t)
  define v0 where "v0 = byte_value b0"
  consider "v0 < 0x80" | "0xC0 \<le> v0" "v0 < 0xE0" | "0xE0 \<le> v0" "v0 < 0xF0"
    | "0xF0 \<le> v0" "v0 < 0xF8" | "0x80 \<le> v0" "v0 < 0xC0" | "0xF8 \<le> v0"
    by linarith
  then show ?thesis
  proof cases
    case 1
    with assms Cons have "c = v0" "r = t"
      by (simp_all add: v0_def)
    moreover have "b0 = byte v0"
      by (rule byte_eqI) (simp add: v0_def)
    ultimately show ?thesis
      using 1 by (simp add: Cons is_scalar_def encode_scalar_def)
  next
    case 2
    with assms Cons obtain b1 where t: "t = b1 # r" and d: "decode2 v0 (byte_value b1) = Some c"
      by (auto simp add: v0_def split: list.splits)
    from decode2_sound [OF 2 d] have e: "0x80 \<le> c" "c < 0x800"
      "byte_value b0 = 0xC0 + c div 0x40" "byte_value b1 = 0x80 + c mod 0x40"
      by (simp_all add: v0_def)
    have "bs = [byte (0xC0 + c div 0x40), byte (0x80 + c mod 0x40)] @ r"
      by (simp add: Cons t byte_eqI [OF e(3)] byte_eqI [OF e(4)])
    then show ?thesis
      using e(1,2) by (simp add: is_scalar_def encode_scalar_def)
  next
    case 3
    with assms Cons obtain b1 b2 where t: "t = b1 # b2 # r"
      and d: "decode3 v0 (byte_value b1) (byte_value b2) = Some c"
      by (auto simp add: v0_def split: list.splits)
    from decode3_sound [OF 3 d] have e: "0x800 \<le> c" "c < 0x10000" "is_scalar c"
      "byte_value b0 = 0xE0 + c div 0x1000" "byte_value b1 = 0x80 + c div 0x40 mod 0x40"
      "byte_value b2 = 0x80 + c mod 0x40"
      by (simp_all add: v0_def)
    have "bs = [byte (0xE0 + c div 0x1000), byte (0x80 + c div 0x40 mod 0x40),
        byte (0x80 + c mod 0x40)] @ r"
      by (simp add: Cons t byte_eqI [OF e(4)] byte_eqI [OF e(5)] byte_eqI [OF e(6)])
    then show ?thesis
      using e(1,2,3) by (simp add: encode_scalar_def)
  next
    case 4
    with assms Cons obtain b1 b2 b3 where t: "t = b1 # b2 # b3 # r"
      and d: "decode4 v0 (byte_value b1) (byte_value b2) (byte_value b3) = Some c"
      by (auto simp add: v0_def split: list.splits)
    from decode4_sound [OF 4(1) d] have e: "0x10000 \<le> c" "is_scalar c"
      "byte_value b0 = 0xF0 + c div 0x40000" "byte_value b1 = 0x80 + c div 0x1000 mod 0x40"
      "byte_value b2 = 0x80 + c div 0x40 mod 0x40" "byte_value b3 = 0x80 + c mod 0x40"
      by (simp_all add: v0_def)
    have "bs = [byte (0xF0 + c div 0x40000), byte (0x80 + c div 0x1000 mod 0x40),
        byte (0x80 + c div 0x40 mod 0x40), byte (0x80 + c mod 0x40)] @ r"
      by (simp add: Cons t byte_eqI [OF e(3)] byte_eqI [OF e(4)] byte_eqI [OF e(5)]
          byte_eqI [OF e(6)])
    then show ?thesis
      using e(1,2) by (simp add: encode_scalar_def)
  next
    case 5
    with assms Cons show ?thesis
      by (simp add: v0_def)
  next
    case 6
    with assms Cons show ?thesis
      by (simp add: v0_def)
  qed
qed

subsection \<open>Sequences of scalars\<close>

lemma utf8_decode_encode:
  "utf8_encode cs = Some bs \<Longrightarrow> utf8_decode bs = Some cs"
proof (induction cs arbitrary: bs)
  case Nil
  then show ?case
    by (simp add: utf8_decode.simps)
next
  case (Cons c cs)
  from Cons.prems obtain t where c: "is_scalar c" and t: "utf8_encode cs = Some t"
    and bs: "bs = encode_scalar c @ t"
    by (auto split: if_splits option.splits)
  have "bs \<noteq> []"
    by (simp add: bs encode_scalar_nonempty)
  moreover have "decode_scalar bs = Some (c, t)"
    unfolding bs by (rule decode_encode_scalar [OF c])
  moreover have "utf8_decode t = Some cs"
    by (rule Cons.IH [OF t])
  ultimately show ?case
    by (subst utf8_decode.simps) simp
qed

lemma utf8_encode_total:
  "list_all is_scalar cs \<Longrightarrow> \<exists>bs. utf8_encode cs = Some bs"
  by (induction cs) auto

lemma utf8_decode_step:
  assumes "utf8_decode bs = Some cs" "bs \<noteq> []"
  obtains c r t where "decode_scalar bs = Some (c, r)" "utf8_decode r = Some t" "cs = c # t"
  using assms by (subst (asm) utf8_decode.simps) (auto split: option.splits)

lemma utf8_encode_decode:
  "utf8_decode bs = Some cs \<Longrightarrow> utf8_encode cs = Some bs"
proof (induction bs arbitrary: cs rule: utf8_decode.induct)
  case (1 bs)
  show ?case
  proof (cases "bs = []")
    case True
    with "1.prems" show ?thesis
      by (simp add: utf8_decode.simps)
  next
    case False
    from "1.prems" False obtain c r t where d: "decode_scalar bs = Some (c, r)"
      and r: "utf8_decode r = Some t" and cs: "cs = c # t"
      by (rule utf8_decode_step)
    have "utf8_encode t = Some r"
      using "1.IH" [OF False d refl r] .
    moreover have "is_scalar c" "bs = encode_scalar c @ r"
      using decode_scalar_sound [OF d] by simp_all
    ultimately show ?thesis
      by (simp add: cs)
  qed
qed

lemma utf8_encode_scalars: "utf8_encode cs = Some bs \<Longrightarrow> list_all is_scalar cs"
  by (induction cs arbitrary: bs) (auto split: if_splits option.splits)

lemma utf8_decode_scalars: "utf8_decode bs = Some cs \<Longrightarrow> list_all is_scalar cs"
  by (rule utf8_encode_scalars [OF utf8_encode_decode])

subsection \<open>The round trip\<close>

lemma from_bytes_utf8:
  "utf8_to_codepoints utf8_converter s =
     (case utf8_decode s of
        None \<Rightarrow> Inl (range_error ''wstring_convert::from_bytes'')
      | Some cs \<Rightarrow> Inr cs)"
  by (simp add: utf8_to_codepoints_def utf8_converter_def)

lemma to_bytes_utf8:
  "codepoints_to_utf8 utf8_converter cs =
     (case utf8_encode cs of
        None \<Rightarrow> Inl (range_error ''wstring_convert::to_bytes'')
      | Some bs \<Rightarrow> Inr bs)"
  by (simp add: codepoints_to_utf8_def utf8_converter_def)

lemma from_bytes_utf8_Inr:
  "utf8_to_codepoints utf8_converter s = Inr cs \<longleftrightarrow> utf8_decode s = Some cs"
  by (simp add: from_bytes_utf8 split: option.splits)

lemma to_bytes_utf8_Inr:
  "codepoints_to_utf8 utf8_converter cs = Inr bs \<longleftrightarrow> utf8_encode cs = Some bs"
  by (simp add: to_bytes_utf8 split: option.splits)

text \<open>
  Claim C5. The codec round-trips. Every sequence \<open>s\<close> of Unicode scalar values (in range,
  no surrogates) is encoded, and decoding the result gives \<open>s\<close> back; and every byte
  sequence \<open>b\<close> that is valid UTF-8, that is, that the decoder accepts, is what encoding
  its decoded scalars gives.
\<close>

theorem codec_round_trip:
  "(list_all is_scalar s \<longrightarrow>
      (\<exists>b. codepoints_to_utf8 utf8_converter s = Inr b \<and>
           utf8_to_codepoints utf8_converter b = Inr s)) \<and>
   (utf8_to_codepoints utf8_converter b' = Inr s' \<longrightarrow>
      codepoints_to_utf8 utf8_converter s' = Inr b')"
proof (intro conjI impI)
  assume "list_all is_scalar s"
  then obtain b where b: "utf8_encode s = Some b"
    using utf8_encode_total by blast
  then have "utf8_decode b = Some s"
    by (rule utf8_decode_encode)
  with b show "\<exists>b. codepoints_to_utf8 utf8_converter s = Inr b \<and>
      utf8_to_codepoints utf8_converter b = Inr s"
    by (simp add: from_bytes_utf8_Inr to_bytes_utf8_Inr)
next
  assume "utf8_to_codepoints utf8_converter b' = Inr s'"
  then have "utf8_decode b' = Some s'"
    by (simp only: from_bytes_utf8_Inr)
  then have "utf8_encode s' = Some b'"
    by (rule utf8_encode_decode)
  then show "codepoints_to_utf8 utf8_converter s' = Inr b'"
    by (simp only: to_bytes_utf8_Inr)
qed

theorem codec_round_trip_witness:
  "(\<exists>b. codepoints_to_utf8 utf8_converter [0x61, 0xE9, 0x20AC, 0x1F600] = Inr b \<and>
        utf8_to_codepoints utf8_converter b = Inr [0x61, 0xE9, 0x20AC, 0x1F600]) \<and>
   codepoints_to_utf8 utf8_converter [0x61, 0xE9, 0x20AC, 0x1F600] =
     Inr [CHR 0x61, CHR 0xC3, CHR 0xA9, CHR 0xE2, CHR 0x82, CHR 0xAC,
          CHR 0xF0, CHR 0x9F, CHR 0x98, CHR 0x80]"
proof -
  have h1: "list_all is_scalar [0x61, 0xE9, 0x20AC, 0x1F600]"
    by (simp add: is_scalar_def)
  have h2: "utf8_to_codepoints utf8_converter
      [CHR 0x61, CHR 0xC3, CHR 0xA9, CHR 0xE2, CHR 0x82, CHR 0xAC, CHR 0xF0, CHR 0x9F, CHR 0x98,
       CHR 0x80] = Inr [0x61, 0xE9, 0x20AC, 0x1F600]"
    by (simp add: from_bytes_utf8 utf8_decode.simps byte_value_def decode2_def decode3_def
        decode4_def is_cont_def is_scalar_def)
  show ?thesis
    using h1 h2
      codec_round_trip [of "[0x61, 0xE9, 0x20AC, 0x1F600]"
        "[CHR 0x61, CHR 0xC3, CHR 0xA9, CHR 0xE2, CHR 0x82, CHR 0xAC, CHR 0xF0, CHR 0x9F,
          CHR 0x98, CHR 0x80]" "[0x61, 0xE9, 0x20AC, 0x1F600]"]
    by blast
qed

subsection \<open>Converters that agree on valid UTF-8\<close>

lemma lenient_decode_valid: "utf8_decode s = Some cs \<Longrightarrow> lenient_decode s = Some cs"
proof (induction s arbitrary: cs rule: utf8_decode.induct)
  case (1 bs)
  show ?case
  proof (cases "bs = []")
    case True
    with "1.prems" show ?thesis
      by (simp add: utf8_decode.simps lenient_decode.simps)
  next
    case False
    from "1.prems" False obtain c r t where d: "decode_scalar bs = Some (c, r)"
      and r: "utf8_decode r = Some t" and cs: "cs = c # t"
      by (rule utf8_decode_step)
    have "lenient_decode r = Some t"
      using "1.IH" [OF False d refl r] .
    with False d cs show ?thesis
      by (subst lenient_decode.simps) simp
  qed
qed

lemma utf8_converter_agrees: "agrees_on_utf8 utf8_converter"
  by (simp add: agrees_on_utf8_def utf8_converter_def)

lemma lenient_converter_agrees: "agrees_on_utf8 lenient_converter"
  by (simp add: agrees_on_utf8_def lenient_converter_def lenient_decode_valid)

lemma agrees_on_utf8_from_bytes:
  "agrees_on_utf8 cv \<Longrightarrow> utf8_decode s = Some cs \<Longrightarrow> utf8_to_codepoints cv s = Inr cs"
  by (simp add: agrees_on_utf8_def utf8_to_codepoints_def)

lemma agrees_on_utf8_to_bytes:
  "agrees_on_utf8 cv \<Longrightarrow> utf8_encode cs = Some bs \<Longrightarrow> codepoints_to_utf8 cv cs = Inr bs"
  by (simp add: agrees_on_utf8_def codepoints_to_utf8_def)

section \<open>Properties of splitting\<close>

lemma length_getline_loop:
  "length (getline_loop s d token) =
     count_list s d + (if (s = [] \<and> token = []) \<or> (s \<noteq> [] \<and> last s = d) then 0 else 1)"
  by (induction s arbitrary: token) auto

lemma length_split:
  "length (split s d) = count_list s d + (if s = [] \<or> last s = d then 0 else 1)"
  by (auto simp add: split_def length_getline_loop)

lemma getline_loop_append:
  "d \<notin> set p \<Longrightarrow> getline_loop (p @ r) d token = getline_loop r d (token @ p)"
  by (induction p arbitrary: token) auto

lemma split_single_line: "d \<notin> set s \<Longrightarrow> s \<noteq> [] \<Longrightarrow> split s d = [s]"
  using getline_loop_append [of d s "[]" "[]"] by (simp add: split_def)

section \<open>Newlines under the codec and the table\<close>

lemma encode_scalar_cases:
  assumes "is_scalar c"
  obtains (ascii) "c < 0x80" "encode_scalar c = [byte c]"
  | (multi) "0x80 \<le> c" "\<forall>b\<in>set (encode_scalar c). 0x80 \<le> byte_value b"
      "is_cont (byte_value (last (encode_scalar c)))"
proof (cases "c < 0x80")
  case True
  then show ?thesis
    by (intro ascii) (simp_all add: encode_scalar_def)
next
  case False
  have "c \<le> 0x10FFFF"
    using assms by (simp add: is_scalar_def)
  then have d4: "c div 0x40000 < 0x8"
    by arith
  have d3: "c < 0x10000 \<longrightarrow> c div 0x1000 < 0x10"
    by arith
  have d2: "c < 0x800 \<longrightarrow> c div 0x40 < 0x20"
    by arith
  have m: "\<And>x::nat. x mod 0x40 < 0x40"
    by simp
  have v: "\<And>n. n < 0x100 \<Longrightarrow> byte_value (byte n) = n"
    by (rule byte_value_byte)
  show ?thesis
  proof (rule multi)
    show "0x80 \<le> c"
      using False by simp
    show "\<forall>b\<in>set (encode_scalar c). 0x80 \<le> byte_value b"
      using False d2 d3 d4 m [of c] m [of "c div 0x40"] m [of "c div 0x1000"]
      by (auto simp add: encode_scalar_def v)
    show "is_cont (byte_value (last (encode_scalar c)))"
      using False m [of c] by (auto simp add: encode_scalar_def v is_cont_def)
  qed
qed
lemma encode_scalar_newline:
  assumes "is_scalar c"
  shows "c = 0x0A \<and> encode_scalar c = [newline] \<or> c \<noteq> 0x0A \<and> newline \<notin> set (encode_scalar c)"
  using assms
proof (cases rule: encode_scalar_cases)
  case ascii
  have "byte c = newline \<longleftrightarrow> c = 0x0A"
    using ascii(1) by (simp add: byte_eq_iff byte_value_newline)
  then show ?thesis
    using ascii(2) by auto
next
  case multi
  have "newline \<notin> set (encode_scalar c)"
  proof
    assume "newline \<in> set (encode_scalar c)"
    with multi(2) have "0x80 \<le> byte_value newline"
      by blast
    then show False
      by (simp add: byte_value_newline)
  qed
  with multi(1) show ?thesis
    by simp
qed

lemma count_newline_encode_scalar:
  "is_scalar c \<Longrightarrow> count_list (encode_scalar c) newline = (if c = 0x0A then 1 else 0)"
  using encode_scalar_newline [of c] by (auto simp add: count_list_0_iff)

lemma last_encode_scalar_newline:
  "is_scalar c \<Longrightarrow> last (encode_scalar c) = newline \<longleftrightarrow> c = 0x0A"
  using encode_scalar_newline [of c] last_in_set [OF encode_scalar_nonempty, of c] by auto

lemma utf8_encode_newlines:
  "utf8_encode cs = Some bs \<Longrightarrow>
     count_list bs newline = count_list cs 0x0A \<and> (bs = [] \<longleftrightarrow> cs = []) \<and>
     (cs \<noteq> [] \<longrightarrow> (last bs = newline \<longleftrightarrow> last cs = 0x0A))"
proof (induction cs arbitrary: bs)
  case Nil
  then show ?case
    by simp
next
  case (Cons c cs)
  from Cons.prems obtain t where c: "is_scalar c" and t: "utf8_encode cs = Some t"
    and bs: "bs = encode_scalar c @ t"
    by (auto split: if_splits option.splits)
  note ih = Cons.IH [OF t]
  show ?case
  proof (cases "cs = []")
    case True
    with ih have "t = []"
      by simp
    with True c show ?thesis
      by (simp add: bs count_newline_encode_scalar last_encode_scalar_newline encode_scalar_nonempty)
  next
    case False
    with ih have "t \<noteq> []"
      by simp
    with False c ih show ?thesis
      by (simp add: bs count_newline_encode_scalar encode_scalar_nonempty)
  qed
qed

lemma cp437_scalar: "is_scalar c \<Longrightarrow> is_scalar (cp437_to_unicode c)"
  using cp437_above_byte [of c] cp437_byte_bound [of c]
  by (cases "c \<le> 0xFF") (auto simp add: is_scalar_def)

lemma cp437_newlines:
  "count_list (map cp437_to_unicode cs) 0x0A = count_list cs 0x0A \<and>
   (cs \<noteq> [] \<longrightarrow> (last (map cp437_to_unicode cs) = 0x0A \<longleftrightarrow> last cs = 0x0A))"
  by (induction cs) (auto simp add: cp437_newline_iff last_map)

lemma line_count_preserved:
  assumes "utf8_encode cs = Some bs" "utf8_encode (map cp437_to_unicode cs) = Some bs'"
  shows "length (split bs newline) = length (split bs' newline)"
proof -
  note a = utf8_encode_newlines [OF assms(1)] and b = utf8_encode_newlines [OF assms(2)]
    and c = cp437_newlines [of cs]
  show ?thesis
  proof (cases "cs = []")
    case True
    with a b show ?thesis
      by simp
  next
    case False
    with a b c show ?thesis
      by (simp add: length_split)
  qed
qed

lemma converted_message_exists:
  assumes "utf8_decode message = Some cs"
  shows "\<exists>new_message. utf8_encode (map cp437_to_unicode cs) = Some new_message"
proof -
  have "list_all is_scalar cs"
    using assms by (rule utf8_decode_scalars)
  then have "list_all is_scalar (map cp437_to_unicode cs)"
    by (induction cs) (simp_all add: cp437_scalar)
  then show ?thesis
    by (rule utf8_encode_total)
qed

lemma valid_message_line_count:
  assumes "agrees_on_utf8 cv" "utf8_decode message = Some codepoints"
  shows "utf8_to_codepoints cv message = Inr codepoints \<and>
    (\<exists>new_message.
       codepoints_to_utf8 cv (map cp437_to_unicode codepoints) = Inr new_message \<and>
       length (split new_message newline) = length (split message newline))"
proof -
  have enc: "utf8_encode codepoints = Some message"
    using assms(2) by (rule utf8_encode_decode)
  obtain new_message where
    new: "utf8_encode (map cp437_to_unicode codepoints) = Some new_message"
    using converted_message_exists [OF assms(2)] by blast
  have "length (split new_message newline) = length (split message newline)"
    using line_count_preserved [OF enc new] by simp
  then show ?thesis
    using agrees_on_utf8_from_bytes [OF assms] agrees_on_utf8_to_bytes [OF assms(1) new]
    by auto
qed

text \<open>
  Claim C8, as amended. A message with exactly one newline splits into two lines when the
  newline is not its last character, and into one line when it is: \<^verbatim>\<open>std::getline\<close> fails
  on the empty remainder, so no empty last line is stored. When the message is valid
  UTF-8, the converter returns its scalars and the converted message splits into the same
  number of lines, for every converter that converts valid UTF-8 as UTF-8 prescribes.
\<close>

theorem split_one_newline:
  "count_list message newline = 1 \<longrightarrow>
     length (split message newline) = (if last message = newline then 1 else 2) \<and>
     (agrees_on_utf8 cv \<and> utf8_decode message = Some codepoints \<longrightarrow>
        utf8_to_codepoints cv message = Inr codepoints \<and>
        (\<exists>new_message.
           codepoints_to_utf8 cv (map cp437_to_unicode codepoints) = Inr new_message \<and>
           length (split new_message newline) = (if last message = newline then 1 else 2)))"
proof (intro impI conjI)
  assume one: "count_list message newline = 1"
  then have "message \<noteq> []"
    by auto
  with one show n: "length (split message newline) = (if last message = newline then 1 else 2)"
    by (simp add: length_split)
  assume a: "agrees_on_utf8 cv \<and> utf8_decode message = Some codepoints"
  then show "utf8_to_codepoints cv message = Inr codepoints"
    using valid_message_line_count [of cv message codepoints] by simp
  from a n show "\<exists>new_message.
      codepoints_to_utf8 cv (map cp437_to_unicode codepoints) = Inr new_message \<and>
      length (split new_message newline) = (if last message = newline then 1 else 2)"
    using valid_message_line_count [of cv message codepoints] by auto
qed

theorem split_one_newline_witness:
  "length (split [CHR ''a'', newline, CHR ''b''] newline) = 2 \<and>
   length (split [newline] newline) = 1 \<and>
   utf8_to_codepoints lenient_converter [CHR ''a'', newline, CHR ''b''] = Inr [0x61, 0x0A, 0x62] \<and>
   (\<exists>new_message.
      codepoints_to_utf8 lenient_converter (map cp437_to_unicode [0x61, 0x0A, 0x62])
        = Inr new_message \<and>
      length (split new_message newline) = 2)"
proof -
  have h1: "count_list [CHR ''a'', newline, CHR ''b''] newline = 1"
    by (simp add: newline_def)
  have h2: "count_list [newline] newline = 1"
    by simp
  have h3: "utf8_decode [CHR ''a'', newline, CHR ''b''] = Some [0x61, 0x0A, 0x62]"
    by (simp add: utf8_decode.simps byte_value_def newline_def)
  have h4: "last [CHR ''a'', newline, CHR ''b''] \<noteq> newline"
    by (simp add: newline_def)
  show ?thesis
    using h1 h2 h3 h4 lenient_converter_agrees
      split_one_newline [of "[CHR ''a'', newline, CHR ''b'']" lenient_converter
        "[0x61, 0x0A, 0x62]"]
      split_one_newline [of "[newline]" lenient_converter "[]"]
    by auto
qed

theorem split_trailing_newline_one_line:
  "count_list [CHR ''a'', newline] newline = 1 \<and> length (split [CHR ''a'', newline] newline) \<noteq> 2"
  by (simp add: split_def newline_def)

section \<open>Properties of the grapheme counter\<close>

text \<open>
  The inner loop stops after at most one increment: the iterator advances by two on a
  byte \<open>110xxxxx\<close> and by one on every other byte, the lead bytes of three- and
  four-byte sequences included.
\<close>

lemma advance_eq:
  "advance c = (if 0xC0 \<le> byte_value c \<and> byte_value c \<le> 0xDF then 2 else 1)"
proof (cases c)
  case (Char b0 b1 b2 b3 b4 b5 b6 b7)
  show ?thesis
    unfolding Char advance_def byte_value_def promote_def
      count_bytes.simps [of _ 1] count_bytes.simps [of _ 2] count_bytes.simps [of _ "Suc 1"]
    by (cases b0; cases b1; cases b2; cases b3; cases b4; cases b5; cases b6; cases b7; simp)
qed

lemma grapheme_loop_returns:
  "\<not> ends_in_lead s \<Longrightarrow> it \<le> length s \<Longrightarrow> \<exists>m. grapheme_loop s it n = Some m"
proof (induction s it n rule: grapheme_loop.induct)
  case (1 s it n)
  note safe = "1.prems"(1)
  show ?case
  proof (cases "it = length s")
    case True
    then show ?thesis
      by (subst grapheme_loop.simps) simp
  next
    case False
    with "1.prems"(2) have lt: "it < length s"
      by simp
    have "it + advance (s ! it) \<le> length s"
    proof (cases "0xC0 \<le> byte_value (s ! it) \<and> byte_value (s ! it) \<le> 0xDF")
      case True
      have "it \<noteq> length s - 1"
      proof
        assume "it = length s - 1"
        moreover have "s \<noteq> []"
          using lt by auto
        ultimately have "s ! it = last s"
          by (simp add: last_conv_nth)
        with True lt safe show False
          by (auto simp add: ends_in_lead_def)
      qed
      with lt True show ?thesis
        by (simp add: advance_eq)
    next
      case False
      with lt show ?thesis
        by (auto simp add: advance_eq)
    qed
    then obtain m where "grapheme_loop s (it + advance (s ! it)) (Suc n) = Some m"
      using "1.IH" [OF False _ safe] lt by auto
    with False lt show ?thesis
      by (subst grapheme_loop.simps) simp
  qed
qed

lemma get_grapheme_count_returns:
  "\<not> ends_in_lead s \<Longrightarrow> \<exists>m. get_grapheme_count s = Some m"
  unfolding get_grapheme_count_def by (rule grapheme_loop_returns) simp_all

lemma encode_scalar_not_ends_in_lead:
  assumes "is_scalar c"
  shows "\<not> ends_in_lead (encode_scalar c)"
  using assms
proof (cases rule: encode_scalar_cases)
  case ascii
  then show ?thesis
    by (simp add: ends_in_lead_def byte_value_byte)
next
  case multi
  then show ?thesis
    by (simp add: ends_in_lead_def is_cont_def)
qed

lemma getline_loop_encoded:
  assumes "utf8_encode cs = Some bs" "\<not> ends_in_lead token"
  shows "\<forall>l\<in>set (getline_loop bs newline token). \<not> ends_in_lead l"
  using assms
proof (induction cs arbitrary: bs token)
  case Nil
  then show ?case
    by auto
next
  case (Cons c cs)
  from Cons.prems(1) obtain t where c: "is_scalar c" and t: "utf8_encode cs = Some t"
    and bs: "bs = encode_scalar c @ t"
    by (auto split: if_splits option.splits)
  from encode_scalar_newline [OF c] show ?case
  proof (elim disjE conjE)
    assume "encode_scalar c = [newline]"
    moreover have "\<not> ends_in_lead []"
      by (simp add: ends_in_lead_def)
    ultimately show ?thesis
      using Cons.IH [OF t, of "[]"] Cons.prems(2) by (simp add: bs)
  next
    assume n: "newline \<notin> set (encode_scalar c)"
    have "\<not> ends_in_lead (token @ encode_scalar c)"
      using encode_scalar_not_ends_in_lead [OF c]
      by (simp add: ends_in_lead_def encode_scalar_nonempty)
    then show ?thesis
      using Cons.IH [OF t] by (simp add: bs getline_loop_append [OF n])
  qed
qed

lemma split_encoded:
  "utf8_encode cs = Some bs \<Longrightarrow> \<forall>l\<in>set (split bs newline). \<not> ends_in_lead l"
  unfolding split_def by (rule getline_loop_encoded) (simp_all add: ends_in_lead_def)

lemma report_lines_returns:
  "\<forall>l\<in>set ls. \<not> ends_in_lead l \<Longrightarrow> \<exists>rows. report_lines ls ls' = Some rows"
proof (induction ls arbitrary: ls')
  case Nil
  then show ?case
    by simp
next
  case (Cons l ls)
  show ?case
  proof (cases ls')
    case Nil
    then show ?thesis
      by simp
  next
    case (Cons l' ls'')
    obtain rows where "report_lines ls ls'' = Some rows"
      using Cons.IH [of ls''] Cons.prems by auto
    moreover obtain g where "get_grapheme_count l = Some g"
      using get_grapheme_count_returns [of l] Cons.prems by auto
    ultimately show ?thesis
      by (simp add: Cons)
  qed
qed

text \<open>
  Claim C9 fails on the code. On a string that consists of the single byte \<open>0xC3\<close>, the lead
  byte of a two-byte sequence whose second byte is missing, the iterator advances by two
  from position 0 of a string of length 1: it steps past the end.
\<close>

theorem get_grapheme_count_overrun:
  "advance (CHR 0xC3) = 2 \<and> get_grapheme_count [CHR 0xC3] = None"
  by (simp add: get_grapheme_count_def grapheme_loop.simps advance_eq byte_value_def)

section \<open>Properties of the reporter\<close>

text \<open>
  With the strict converter the message that was decoded is the encoding of its scalars,
  so both line vectors come from encodings and have the same length; what is left of
  \<^verbatim>\<open>check_messages\<close> is this.
\<close>

lemma check_messages_utf8:
  "check_messages utf8_converter filename message =
     (if message = [] then Ok []
      else case utf8_decode message of
        None \<Rightarrow> Raise (range_error ''wstring_convert::from_bytes'')
      | Some codepoints \<Rightarrow>
          (case utf8_encode (map cp437_to_unicode codepoints) of
             None \<Rightarrow> Raise (range_error ''wstring_convert::to_bytes'')
           | Some new_message \<Rightarrow>
               if message = new_message then Ok []
               else (case report_lines (split message newline) (split new_message newline) of
                       None \<Rightarrow> Overrun
                     | Some rows \<Rightarrow>
                         Ok (''Difference in '' @ filename @ '':'' @ [newline, newline]
                             @ rows @ [newline]))))"
proof (cases "utf8_decode message")
  case None
  then show ?thesis
    by (simp add: check_messages_def from_bytes_utf8)
next
  case (Some cs)
  then have enc: "utf8_encode cs = Some message"
    by (rule utf8_encode_decode)
  show ?thesis
  proof (cases "utf8_encode (map cp437_to_unicode cs)")
    case None
    with Some show ?thesis
      by (simp add: check_messages_def from_bytes_utf8 to_bytes_utf8)
  next
    case new: (Some new_message)
    have "length (split message newline) = length (split new_message newline)"
      using enc new by (rule line_count_preserved)
    with Some new show ?thesis
      by (simp add: check_messages_def from_bytes_utf8 to_bytes_utf8 Let_def)
  qed
qed

text \<open>
  On a message that is valid UTF-8, and with a converter that converts valid UTF-8 as
  UTF-8 prescribes, \<^verbatim>\<open>check_messages\<close> neither throws the size-mismatch error nor lets
  \<^verbatim>\<open>get_grapheme_count\<close> step past the end of a line.
\<close>

lemma check_messages_valid:
  assumes "agrees_on_utf8 cv" "utf8_decode message = Some codepoints"
  shows "check_messages cv filename message \<noteq> Overrun \<and>
    check_messages cv filename message \<noteq> Raise (runtime_error ''internal error: size mismatch'')"
proof -
  have enc: "utf8_encode codepoints = Some message"
    using assms(2) by (rule utf8_encode_decode)
  obtain new_message where
    new: "utf8_encode (map cp437_to_unicode codepoints) = Some new_message"
    using converted_message_exists [OF assms(2)] by blast
  have n: "length (split message newline) = length (split new_message newline)"
    using enc new by (rule line_count_preserved)
  obtain rows where "report_lines (split message newline) (split new_message newline) = Some rows"
    using report_lines_returns [OF split_encoded [OF enc]] by blast
  then show ?thesis
    using n agrees_on_utf8_from_bytes [OF assms] agrees_on_utf8_to_bytes [OF assms(1) new]
    by (simp add: check_messages_def Let_def)
qed


section \<open>A reported row\<close>

lemma utf8_decode_ascii:
  "byte_value a < 0x80 \<Longrightarrow>
     utf8_decode (a # r) = (case utf8_decode r of None \<Rightarrow> None | Some cs \<Rightarrow> Some (byte_value a # cs))"
  by (subst utf8_decode.simps) simp

lemma utf8_decode_U0081:
  "utf8_decode (CHR 0xC2 # CHR 0x81 # r) =
     (case utf8_decode r of None \<Rightarrow> None | Some cs \<Rightarrow> Some (0x81 # cs))"
  by (subst utf8_decode.simps) (simp add: byte_value_def decode2_def is_cont_def)

lemma utf8_decode_row_message:
  assumes "byte_value a < 0x80" "byte_value b < 0x80"
  shows "utf8_decode [a, CHR 0xC2, CHR 0x81, b] = Some [byte_value a, 0x81, byte_value b]"
  using assms by (simp add: utf8_decode_ascii utf8_decode_U0081 utf8_decode.simps [of "[]"])

lemma ascii_scalar: "c < 0x80 \<Longrightarrow> is_scalar (cp437_to_unicode c)"
  by (rule cp437_scalar) (simp add: is_scalar_def)

lemma encode_U00FC: "encode_scalar 0xFC = [CHR 0xC3, CHR 0xBC]"
  by (simp add: encode_scalar_def byte_eq_iff byte_value_def)

lemma cp437_0x81: "cp437_to_unicode 0x81 = 0xFC"
  by (simp add: cp437_to_unicode_def)

lemma utf8_encode_row_message:
  assumes "byte_value a < 0x80" "byte_value b < 0x80"
  shows "utf8_encode (map cp437_to_unicode [byte_value a, 0x81, byte_value b]) =
     Some (encode_scalar (cp437_to_unicode (byte_value a)) @ [CHR 0xC3, CHR 0xBC]
           @ encode_scalar (cp437_to_unicode (byte_value b)))"
proof -
  have "is_scalar 0xFC"
    by (simp add: is_scalar_def)
  then show ?thesis
    using assms by (simp add: ascii_scalar cp437_0x81 encode_U00FC)
qed

lemma get_grapheme_count_row_message:
  assumes "byte_value a < 0x80" "byte_value b < 0x80"
  shows "get_grapheme_count [a, CHR 0xC2, CHR 0x81, b] = Some 3"
proof -
  have "advance a = 1" "advance b = 1" "advance (CHR 0xC2) = 2"
    using assms by (simp_all add: advance_eq) (simp add: byte_value_def)
  then show ?thesis
    by (simp add: get_grapheme_count_def grapheme_loop.simps)
qed
text \<open>
  Claim C6, as amended. The message is one line: an ASCII character other than newline,
  the scalar \<open>U+0081\<close> in UTF-8 (the bytes \<open>0xC2 0x81\<close>), and another ASCII character other
  than newline. \<^verbatim>\<open>check_messages\<close> writes the header and one row: the original line, 77
  spaces (the line counts three units), the separator, and the converted line, in which
  \<open>U+0081\<close> has become \<open>U+00FC\<close> (the bytes \<open>0xC3 0xBC\<close>).
\<close>

theorem row_for_U0081:
  assumes "byte_value a < 0x80" "byte_value b < 0x80" "a \<noteq> newline" "b \<noteq> newline"
  shows "check_messages utf8_converter filename [a, CHR 0xC2, CHR 0x81, b] =
     Ok (''Difference in '' @ filename @ '':'' @ [newline, newline]
         @ [a, CHR 0xC2, CHR 0x81, b] @ replicate 77 CHR '' '' @ '' | ''
         @ (encode_scalar (cp437_to_unicode (byte_value a)) @ [CHR 0xC3, CHR 0xBC]
            @ encode_scalar (cp437_to_unicode (byte_value b)))
         @ [newline] @ [newline])"
proof -
  define message where "message = [a, CHR 0xC2, CHR 0x81, b]"
  define new_message where "new_message =
    encode_scalar (cp437_to_unicode (byte_value a)) @ [CHR 0xC3, CHR 0xBC]
      @ encode_scalar (cp437_to_unicode (byte_value b))"
  have dec: "utf8_decode message = Some [byte_value a, 0x81, byte_value b]"
    unfolding message_def using assms(1,2) by (rule utf8_decode_row_message)
  have enc: "utf8_encode (map cp437_to_unicode [byte_value a, 0x81, byte_value b])
      = Some new_message"
    unfolding new_message_def using assms(1,2) by (rule utf8_encode_row_message)
  have differ: "message \<noteq> new_message"
  proof
    assume "message = new_message"
    moreover have "utf8_decode new_message
        = Some (map cp437_to_unicode [byte_value a, 0x81, byte_value b])"
      using enc by (rule utf8_decode_encode)
    ultimately show False
      using dec by (simp add: cp437_0x81)
  qed
  have "newline \<notin> set message"
    using assms(3,4) by (auto simp add: message_def newline_def)
  then have lines: "split message newline = [message]"
    by (rule split_single_line) (simp add: message_def)
  have va: "byte_value a \<noteq> 0x0A" and vb: "byte_value b \<noteq> 0x0A"
    using assms(3,4) byte_value_eq_iff [of a newline] byte_value_eq_iff [of b newline]
    by (simp_all add: byte_value_newline)
  have "newline \<notin> set (encode_scalar (cp437_to_unicode (byte_value a)))"
    "newline \<notin> set (encode_scalar (cp437_to_unicode (byte_value b)))"
    using encode_scalar_newline [OF ascii_scalar [OF assms(1)]]
      encode_scalar_newline [OF ascii_scalar [OF assms(2)]] va vb
    by (simp_all add: cp437_newline_iff)
  then have "newline \<notin> set new_message"
    by (simp add: new_message_def newline_def)
  then have new_lines: "split new_message newline = [new_message]"
    by (rule split_single_line) (simp add: new_message_def)
  have "get_grapheme_count message = Some 3"
    unfolding message_def using assms(1,2) by (rule get_grapheme_count_row_message)
  with differ have "report_lines [message] [new_message]
      = Some (message @ replicate 77 CHR '' '' @ '' | '' @ new_message @ [newline])"
    by simp
  with dec enc differ lines new_lines
  have "check_messages utf8_converter filename message =
      Ok (''Difference in '' @ filename @ '':'' @ [newline, newline]
          @ (message @ replicate 77 CHR '' '' @ '' | '' @ new_message @ [newline]) @ [newline])"
    by (simp add: check_messages_utf8 message_def)
  then show ?thesis
    by (simp add: message_def new_message_def)
qed

theorem row_for_U0081_witness:
  "check_messages utf8_converter ''song.it'' [CHR ''a'', CHR 0xC2, CHR 0x81, CHR ''b''] =
     Ok (''Difference in song.it:'' @ [newline, newline]
         @ [CHR ''a'', CHR 0xC2, CHR 0x81, CHR ''b''] @ replicate 77 CHR '' '' @ '' | ''
         @ [CHR ''a'', CHR 0xC3, CHR 0xBC, CHR ''b''] @ [newline, newline])"
proof -
  have h: "byte_value CHR ''a'' < 0x80" "byte_value CHR ''b'' < 0x80"
    "CHR ''a'' \<noteq> newline" "CHR ''b'' \<noteq> newline"
    by (simp_all add: byte_value_def newline_def)
  have e: "encode_scalar (cp437_to_unicode (byte_value CHR ''a'')) = [CHR ''a'']"
    "encode_scalar (cp437_to_unicode (byte_value CHR ''b'')) = [CHR ''b'']"
    by (simp_all add: byte_value_def cp437_printable encode_scalar_def byte_eq_iff)
  show ?thesis
    using row_for_U0081 [OF h, of "''song.it''"] by (simp add: e)
qed

theorem raw_byte_0x81_is_rejected:
  "check_messages utf8_converter ''song.it'' [CHR ''a'', CHR 0x81, CHR ''b''] =
     Raise (range_error ''wstring_convert::from_bytes'')"
  by (simp add: check_messages_utf8 utf8_decode.simps byte_value_def)

section \<open>Properties of the file driver\<close>

lemma second_file_is_reported:
  "check_messages lenient_converter ''b.it'' [CHR 0x02] =
     Ok (''Difference in b.it:'' @ [newline, newline] @ [CHR 0x02] @ replicate 79 CHR '' ''
         @ '' | '' @ [CHR 0xE2, CHR 0x98, CHR 0xBB] @ [newline, newline])"
proof -
  have d: "utf8_to_codepoints lenient_converter [CHR 0x02] = Inr [0x02]"
    by (simp add: utf8_to_codepoints_def lenient_converter_def lenient_decode.simps
        byte_value_def)
  have c: "cp437_to_unicode 0x02 = 0x263B"
    by (simp add: cp437_to_unicode_def)
  have e: "codepoints_to_utf8 lenient_converter [0x263B] = Inr [CHR 0xE2, CHR 0x98, CHR 0xBB]"
    by (simp add: codepoints_to_utf8_def lenient_converter_def is_scalar_def
        encode_scalar_def byte_eq_iff byte_value_def)
  have g: "get_grapheme_count [CHR 0x02] = Some 1"
    by (simp add: get_grapheme_count_def grapheme_loop.simps advance_eq byte_value_def)
  show ?thesis
    by (simp add: check_messages_def d c e g split_def newline_def diff_only_def)
qed

text \<open>
  Claim C3, as amended. When the two line vectors differ in length, \<^verbatim>\<open>check_messages\<close>
  throws \<^verbatim>\<open>std::runtime_error("internal error: size mismatch")\<close>. The throw is inside the
  \<^verbatim>\<open>try\<close> block of \<^verbatim>\<open>process_file\<close>, whose handler catches every \<^verbatim>\<open>std::exception\<close>: the
  error is written to the error stream as a \<^verbatim>\<open>can't open\<close> line and the run goes on with
  the remaining files, from streams that differ only by that line; the exit status is the
  one the run of the remaining files gives, which is 0 whenever it returns. The statement
  holds for every converter.
\<close>

theorem size_mismatch_is_caught:
  assumes "message \<noteq> []"
    and "utf8_to_codepoints cv message = Inr codepoints"
    and "codepoints_to_utf8 cv (map cp437_to_unicode codepoints) = Inr new_message"
    and "length (split message newline) \<noteq> length (split new_message newline)"
  shows "check_messages cv filename message
      = Raise (runtime_error ''internal error: size mismatch'') \<and>
    main_loop cv ((filename, Inr message) # rest) st =
      main_loop cv rest
        (st\<lparr>err := err st @ ''can't open '' @ filename @ '': internal error: size mismatch''
                    @ [newline]\<rparr>) \<and>
    main cv ((filename, Inr message) # rest) =
      (case main_loop cv rest
              \<lparr>out = [], err = ''can't open '' @ filename @ '': internal error: size mismatch''
                                 @ [newline]\<rparr> of
         None \<Rightarrow> None
       | Some st' \<Rightarrow> Some (st', 0))"
proof -
  have r: "check_messages cv filename message
      = Raise (runtime_error ''internal error: size mismatch'')"
    using assms by (simp add: check_messages_def Let_def)
  then have "process_file cv filename (Inr message) st' =
      Some (st'\<lparr>err := err st' @ ''can't open '' @ filename @ '': internal error: size mismatch''
                    @ [newline]\<rparr>)" for st'
    by (simp add: process_file_def)
  with r show ?thesis
    by (simp add: main_def)
qed

theorem size_mismatch_is_caught_witness:
  "check_messages lenient_converter ''a.it'' [CHR 0xC3]
     = Raise (runtime_error ''internal error: size mismatch'') \<and>
   main_loop lenient_converter
     [(''a.it'', Inr [CHR 0xC3]), (''b.it'', Inl (openmpt_exception ''bad''))]
     \<lparr>out = [], err = []\<rparr> =
   main_loop lenient_converter [(''b.it'', Inl (openmpt_exception ''bad''))]
     \<lparr>out = [], err = ''can't open a.it: internal error: size mismatch'' @ [newline]\<rparr>"
proof -
  have h: "[CHR 0xC3] \<noteq> []" "utf8_to_codepoints lenient_converter [CHR 0xC3] = Inr []"
    "codepoints_to_utf8 lenient_converter (map cp437_to_unicode []) = Inr []"
    "length (split [CHR 0xC3] newline) \<noteq> length (split [] newline)"
    by (simp_all add: utf8_to_codepoints_def codepoints_to_utf8_def lenient_converter_def
        lenient_decode.simps incomplete_def byte_value_def split_def newline_def)
  show ?thesis
    using size_mismatch_is_caught [OF h, of "''a.it''"
        "[(''b.it'', Inl (openmpt_exception ''bad''))]" "\<lparr>out = [], err = []\<rparr>"]
    by simp
qed

theorem size_mismatch_does_not_abort:
  "utf8_to_codepoints lenient_converter [CHR 0xC3] = Inr [] \<and>
   codepoints_to_utf8 lenient_converter (map cp437_to_unicode []) = Inr [] \<and>
   length (split [CHR 0xC3] newline) \<noteq> length (split [] newline) \<and>
   main lenient_converter [(''a.it'', Inr [CHR 0xC3]), (''b.it'', Inr [CHR 0x02])] =
   Some (\<lparr>out = ''Difference in b.it:'' @ [newline, newline] @ [CHR 0x02]
                 @ replicate 79 CHR '' '' @ '' | '' @ [CHR 0xE2, CHR 0x98, CHR 0xBB]
                 @ [newline, newline],
          err = ''can't open a.it: internal error: size mismatch'' @ [newline]\<rparr>, 0)"
proof -
  have a: "check_messages lenient_converter ''a.it'' [CHR 0xC3]
      = Raise (runtime_error ''internal error: size mismatch'')"
    by (simp add: check_messages_def utf8_to_codepoints_def codepoints_to_utf8_def
        lenient_converter_def lenient_decode.simps incomplete_def byte_value_def split_def
        newline_def)
  have h: "utf8_to_codepoints lenient_converter [CHR 0xC3] = Inr []"
    "codepoints_to_utf8 lenient_converter [] = Inr []"
    "length (split [CHR 0xC3] newline) \<noteq> length (split [] newline)"
    by (simp_all add: utf8_to_codepoints_def codepoints_to_utf8_def lenient_converter_def
        lenient_decode.simps incomplete_def byte_value_def split_def newline_def)
  show ?thesis
    by (simp add: h a second_file_is_reported main_def process_file_def)
qed

text \<open>
  Claim C7 fails on the code. The message \<open>a\<close>, \<open>0xC3\<close> ends inside a two-byte sequence:
  \<^verbatim>\<open>from_bytes\<close> returns the scalar of \<open>a\<close>, both messages have one line, the lines differ,
  and \<^verbatim>\<open>get_grapheme_count\<close> steps past the end of the original line. The run meets
  undefined behaviour and has no exit status.
\<close>

theorem run_overruns_on_truncated_message:
  "utf8_to_codepoints lenient_converter [CHR ''a'', CHR 0xC3] = Inr [0x61] \<and>
   get_grapheme_count [CHR ''a'', CHR 0xC3] = None \<and>
   check_messages lenient_converter ''a.it'' [CHR ''a'', CHR 0xC3] = Overrun \<and>
   main lenient_converter [(''a.it'', Inr [CHR ''a'', CHR 0xC3]), (''b.it'', Inr ''hello'')] = None"
proof -
  have d: "utf8_to_codepoints lenient_converter [CHR ''a'', CHR 0xC3] = Inr [0x61]"
    by (simp add: utf8_to_codepoints_def lenient_converter_def lenient_decode.simps
        incomplete_def byte_value_def)
  have e: "codepoints_to_utf8 lenient_converter [cp437_to_unicode 0x61] = Inr ''a''"
    by (simp add: codepoints_to_utf8_def lenient_converter_def cp437_printable is_scalar_def
        encode_scalar_def byte_eq_iff byte_value_def)
  have g: "get_grapheme_count [CHR ''a'', CHR 0xC3] = None"
    by (simp add: get_grapheme_count_def grapheme_loop.simps advance_eq byte_value_def)
  have c: "check_messages lenient_converter ''a.it'' [CHR ''a'', CHR 0xC3] = Overrun"
    by (simp add: check_messages_def d e g split_def newline_def diff_only_def)
  show ?thesis
    by (simp add: d g c main_def process_file_def)
qed

end
